theory Spec2Isabelle
  imports Complex_Main "HOL-Library.Multiset"
begin

section \<open>The sliding puzzle of \<open>src/App.tsx\<close>\<close>

text \<open>
  The component keeps one \<open>PuzzleState\<close> (lines 7 to 14), the grid size (line 18) and a
  reference to the interval timer (line 28). The engine is three pieces of code:
  \<open>initPuzzle\<close> (lines 31 to 81), the interval callback it registers (lines 78 to 80) and
  \<open>handleTileClick\<close> (lines 83 to 116). Each is embedded below as a function on the state.
  Events are taken one at a time, every handler reading the state the previous one left.
\<close>

subsection \<open>JavaScript values and arrays\<close>

text \<open>
  An element of a JavaScript array of numbers is a number, the value \<open>undefined\<close>, or a
  hole (an index below the length that was never assigned). Tile numbers are integers.
\<close>

datatype elem = Num int | Undefined | Hole

text \<open>Reading \<open>a[i]\<close>: a hole, an index past the end and a negative index all read
  \<open>undefined\<close>.\<close>

definition js_get :: "elem list \<Rightarrow> int \<Rightarrow> elem" where
  "js_get a i =
     (if 0 \<le> i \<and> i < int (length a)
      then (case a ! nat i of Hole \<Rightarrow> Undefined | v \<Rightarrow> v)
      else Undefined)"

text \<open>
  Writing \<open>a[i] = v\<close>: inside the array the element is replaced; at or past the end the
  array grows to length \<open>i + 1\<close>, the indices in between staying holes. A negative index
  (and an index from \<open>2^32 - 1\<close> on) is an ordinary property name: the write succeeds and
  leaves the elements and the length as they were.
\<close>

definition js_set :: "elem list \<Rightarrow> int \<Rightarrow> elem \<Rightarrow> elem list" where
  "js_set a i v =
     (if i < 0 \<or> 4294967295 \<le> i then a
      else if i < int (length a) then a[nat i := v]
      else a @ replicate (nat i - length a) Hole @ [v])"

text \<open>The spread \<open>[...a]\<close> copies the elements; the iterator yields \<open>undefined\<close> for a
  hole.\<close>

definition spread :: "elem list \<Rightarrow> elem list" where
  "spread a = map (\<lambda>e. case e of Hole \<Rightarrow> Undefined | v \<Rightarrow> v) a"

text \<open>\<open>a.every((tile, i) => tile === i)\<close>, from index \<open>i\<close> on: \<open>every\<close> skips holes, and
  \<open>undefined === i\<close> is false.\<close>

fun every_from :: "nat \<Rightarrow> elem list \<Rightarrow> bool" where
  "every_from i [] = True"
| "every_from i (Hole # ts) = every_from (Suc i) ts"
| "every_from i (Num v # ts) = (v = int i \<and> every_from (Suc i) ts)"
| "every_from i (Undefined # ts) = False"

text \<open>The remainder \<open>a % b\<close> of JavaScript takes the sign of the dividend
  (\<open>-3 % 3\<close> is \<open>-0\<close>, which \<open>===\<close> identifies with \<open>0\<close>).\<close>

definition js_rem :: "int \<Rightarrow> int \<Rightarrow> int" where
  "js_rem a b = sgn a * (\<bar>a\<bar> mod \<bar>b\<bar>)"

text \<open>\<open>a.indexOf(v)\<close>: the array is scanned from index \<open>0\<close> upwards; the result is the
  first index holding \<open>v\<close>, or \<open>-1\<close>. In \<open>indexOf_from\<close> the list is the part of the
  array not yet scanned and \<open>i\<close> the index of its head.\<close>

fun indexOf_from :: "'a list \<Rightarrow> 'a \<Rightarrow> int \<Rightarrow> int" where
  "indexOf_from [] v i = - 1"
| "indexOf_from (x # xs) v i = (if x = v then i else indexOf_from xs v (i + 1))"

definition indexOf :: "'a list \<Rightarrow> 'a \<Rightarrow> int" where
  "indexOf a v = indexOf_from a v 0"

subsection \<open>The state\<close>

record PuzzleState =
  tiles :: "elem list"
  emptyIndex :: int
  moves :: int
  seconds :: int
  isStarted :: bool
  isSolved :: bool

text \<open>
  The component's state: the puzzle, and whether the interval registered through
  \<open>timerRef\<close> is live (\<open>setInterval\<close> makes it live, \<open>clearInterval\<close> cancels it).
\<close>

record App = PuzzleState +
  timerLive :: bool

text \<open>The state before the first game (lines 19 to 26); no timer is registered.\<close>

definition initialApp :: App where
  "initialApp = \<lparr>tiles = [], emptyIndex = - 1, moves = 0, seconds = 0,
     isStarted = False, isSolved = False, timerLive = False\<rparr>"

subsection \<open>The board generator\<close>

text \<open>\<open>Array.from({ length: totalTiles }, (_, i) => i)\<close> with \<open>totalTiles = size * size\<close>.\<close>

definition initialTiles :: "int \<Rightarrow> int list" where
  "initialTiles sz = map int [0..<nat (sz * sz)]"

text \<open>
  The Fisher-Yates loop of \<open>shuffle\<close> (lines 36 to 43). The results of the successive
  calls of \<open>Math.random()\<close> are a sequence \<open>rnd\<close> of reals, each in \<open>[0, 1)\<close>; \<open>k\<close> is the
  number of calls made so far, and the loop returns it with the array. The counter of the
  source runs from \<open>length - 1\<close> down to \<open>1\<close>: it is \<open>Suc i\<close> in the second equation, and the
  first equation is the exit at \<open>0\<close> (an empty array never enters the loop). The
  destructuring assignment writes the old \<open>shuffled[j]\<close> to index \<open>i\<close> first, then the old
  \<open>shuffled[i]\<close> to index \<open>j\<close>. Products and \<open>Math.floor\<close> are taken on exact reals.
\<close>

fun shuffle_loop :: "(nat \<Rightarrow> real) \<Rightarrow> nat \<Rightarrow> nat \<Rightarrow> int list \<Rightarrow> int list \<times> nat" where
  "shuffle_loop rnd k 0 shuffled = (shuffled, k)"
| "shuffle_loop rnd k (Suc i) shuffled =
     (let j = nat \<lfloor>rnd k * real (Suc i + 1)\<rfloor>
      in shuffle_loop rnd (Suc k) i (shuffled[Suc i := shuffled ! j, j := shuffled ! Suc i]))"

definition shuffle :: "(nat \<Rightarrow> real) \<Rightarrow> nat \<Rightarrow> int list \<Rightarrow> int list \<times> nat" where
  "shuffle rnd k array = shuffle_loop rnd k (length array - 1) array"

text \<open>The two nested loops of \<open>isSolvable\<close> (lines 49 to 53), over the index ranges
  \<open>0 \<le> i < length\<close> and \<open>i + 1 \<le> j < length\<close>.\<close>

definition count_inversions :: "int list \<Rightarrow> nat" where
  "count_inversions flatTiles =
     fold (\<lambda>i inversions.
        fold (\<lambda>j inversions. if flatTiles ! i > flatTiles ! j then inversions + 1 else inversions)
          [i + 1..<length flatTiles] inversions)
       [0..<length flatTiles] 0"

text \<open>\<open>isSolvable\<close> (lines 46 to 61); \<open>totalTiles\<close> is the \<open>size * size\<close> of the enclosing
  \<open>initPuzzle\<close>, and \<open>Math.floor(x / size)\<close> on integers is \<open>div\<close>.\<close>

definition isSolvable :: "int list \<Rightarrow> int \<Rightarrow> bool" where
  "isSolvable tls sz =
     (let totalTiles = sz * sz;
          flatTiles = filter (\<lambda>t. t \<noteq> totalTiles - 1) tls;
          inversions = int (count_inversions flatTiles)
      in if js_rem sz 2 \<noteq> 0 then js_rem inversions 2 = 0
         else (let emptyRowFromBottom = sz - indexOf tls (totalTiles - 1) div sz
               in if js_rem emptyRowFromBottom 2 = 0 then js_rem inversions 2 \<noteq> 0
                  else js_rem inversions 2 = 0))"

text \<open>
  The rejection loop (lines 63 to 66). Two arrays of integers have the same
  \<open>JSON.stringify\<close> exactly when they are equal. The loop may run forever: the result is
  an option, \<open>None\<close> when no shuffle is ever accepted.
\<close>

partial_function (option) generateBoard :: "(nat \<Rightarrow> real) \<Rightarrow> nat \<Rightarrow> int \<Rightarrow> (int list \<times> nat) option" where
  "generateBoard rnd k sz =
     (case shuffle rnd k (initialTiles sz) of
        (shuffledTiles, k') \<Rightarrow>
          if \<not> isSolvable shuffledTiles sz \<or> shuffledTiles = initialTiles sz
          then generateBoard rnd k' sz
          else Some (shuffledTiles, k'))"

text \<open>
  \<open>initPuzzle\<close>: the accepted board replaces the whole puzzle state, the old interval is
  cancelled and a new one registered. The state before the call is \<open>s\<close>; the result comes
  with the number of random draws made.
\<close>

definition initPuzzle :: "(nat \<Rightarrow> real) \<Rightarrow> nat \<Rightarrow> int \<Rightarrow> App \<Rightarrow> (App \<times> nat) option" where
  "initPuzzle rnd k sz s =
     (case generateBoard rnd k sz of
        None \<Rightarrow> None
      | Some (shuffledTiles, k') \<Rightarrow>
          Some (\<lparr>tiles = map Num shuffledTiles,
                  emptyIndex = indexOf shuffledTiles (sz * sz - 1),
                  moves = 0, seconds = 0, isStarted = True, isSolved = False,
                  timerLive = True\<rparr>, k'))"

subsection \<open>The timer and the click handler\<close>

text \<open>The callback \<open>initPuzzle\<close> registers with \<open>setInterval\<close> (line 79).\<close>

definition tick_callback :: "App \<Rightarrow> App" where
  "tick_callback prev = prev\<lparr>seconds := seconds prev + 1\<rparr>"

text \<open>
  The timer event: the runtime calls the callback once a second for as long as the interval
  is live; an interval cancelled with \<open>clearInterval\<close> never fires again.
\<close>

definition tick :: "App \<Rightarrow> App" where
  "tick s = (if timerLive s then tick_callback s else s)"

text \<open>The adjacency test of lines 89 to 96, on the clicked index and the cached empty
  index.\<close>

definition isAdjacent :: "int \<Rightarrow> int \<Rightarrow> int \<Rightarrow> bool" where
  "isAdjacent sz index emptyIdx =
     (let row = index div sz;
          col = js_rem index sz;
          emptyRow = emptyIdx div sz;
          emptyCol = js_rem emptyIdx sz
      in (\<bar>row - emptyRow\<bar> = 1 \<and> col = emptyCol) \<or> (\<bar>col - emptyCol\<bar> = 1 \<and> row = emptyRow))"

text \<open>
  \<open>handleTileClick\<close>; \<open>size\<close> is the component's \<open>gridSize\<close>. When the move solves the puzzle
  the interval is cancelled (line 105; \<open>timerRef.current\<close> is empty only when no interval was
  ever registered).
\<close>

definition handleTileClick :: "int \<Rightarrow> int \<Rightarrow> App \<Rightarrow> App" where
  "handleTileClick sz index s =
     (if \<not> isStarted s \<or> isSolved s then s
      else if isAdjacent sz index (emptyIndex s) then
        (let emptyIdx = emptyIndex s;
             copy = spread (tiles s);
             newTiles = js_set (js_set copy index (js_get copy emptyIdx)) emptyIdx (js_get copy index);
             solved = every_from 0 newTiles
         in s\<lparr>tiles := newTiles, emptyIndex := index, moves := moves s + 1,
               isSolved := solved, timerLive := (if solved then False else timerLive s)\<rparr>)
      else s)"

text \<open>A session is driven by clicks and timer ticks.\<close>

datatype event = Move int | Tick

fun step :: "int \<Rightarrow> App \<Rightarrow> event \<Rightarrow> App" where
  "step sz s (Move index) = handleTileClick sz index s"
| "step sz s Tick = tick s"

definition run :: "int \<Rightarrow> App \<Rightarrow> event list \<Rightarrow> App" where
  "run sz s evs = foldl (step sz) s evs"

subsection \<open>Notions used to state the properties\<close>

text \<open>
  The inversions of a sequence as the specification counts them: the pairs of positions
  \<open>i < j\<close> whose values are in descending order.
\<close>

definition inversion_pairs :: "int list \<Rightarrow> (nat \<times> nat) set" where
  "inversion_pairs vs = {(i, j). i < j \<and> j < length vs \<and> vs ! i > vs ! j}"

text \<open>
  Adjacency of two cells of the row-major grid, as the specification words it: the same row
  and neighbouring columns, or the same column and neighbouring rows.
\<close>

definition adjacent_cells :: "int \<Rightarrow> int \<Rightarrow> int \<Rightarrow> bool" where
  "adjacent_cells sz p q =
     ((p div sz = q div sz \<and> \<bar>p mod sz - q mod sz\<bar> = 1)
      \<or> (p mod sz = q mod sz \<and> \<bar>p div sz - q div sz\<bar> = 1))"

text \<open>
  The rejection loop shuffles the identity array again and again, every shuffle drawing
  \<open>size * size - 1\<close> random numbers. \<open>attempt rnd k sz n\<close> is the array of the \<open>n\<close>-th shuffle
  (counted from \<open>0\<close>) of a loop entered after \<open>k\<close> draws, and \<open>accepted\<close> is the negation of
  the loop condition.
\<close>

definition attempt :: "(nat \<Rightarrow> real) \<Rightarrow> nat \<Rightarrow> int \<Rightarrow> nat \<Rightarrow> int list" where
  "attempt rnd k sz n = fst (shuffle rnd (k + n * (nat (sz * sz) - 1)) (initialTiles sz))"

definition accepted :: "int \<Rightarrow> int list \<Rightarrow> bool" where
  "accepted sz b = (isSolvable b sz \<and> b \<noteq> initialTiles sz)"

text \<open>The events a session accepts in range: any tick, and a click on a cell of the grid.\<close>

fun in_range :: "int \<Rightarrow> event \<Rightarrow> bool" where
  "in_range sz (Move index) = (0 \<le> index \<and> index < sz * sz)"
| "in_range sz Tick = True"

text \<open>
  The board invariant of a session of size \<open>sz\<close>: the array is a permutation of the identity
  array, and the cached empty index is a position of the array that holds \<open>sz * sz - 1\<close>.
\<close>

definition board_ok :: "int \<Rightarrow> App \<Rightarrow> bool" where
  "board_ok sz s =
     (mset (tiles s) = mset (map Num (initialTiles sz))
      \<and> 0 \<le> emptyIndex s \<and> emptyIndex s < sz * sz
      \<and> tiles s ! nat (emptyIndex s) = Num (sz * sz - 1))"

text \<open>The timer invariant of a started session: the interval is live exactly while the
  puzzle is unsolved.\<close>

definition timer_ok :: "App \<Rightarrow> bool" where
  "timer_ok s = (isStarted s \<and> (timerLive s \<longleftrightarrow> \<not> isSolved s))"

subsection \<open>Concrete inputs\<close>

text \<open>
  A sequence of random numbers whose first shuffle of the 3 by 3 board exchanges the last
  two cells only, and the session \<open>initPuzzle\<close> builds from it: one move away from the
  solved board.
\<close>

definition rnd_example :: "nat \<Rightarrow> real" where
  "rnd_example k = (if k = 0 then 4 / 5 else 9 / 10)"

definition session_example :: App where
  "session_example = \<lparr>tiles = map Num [0, 1, 2, 3, 4, 5, 6, 8, 7], emptyIndex = 7, moves = 0,
     seconds = 0, isStarted = True, isSolved = False, timerLive = True\<rparr>"

text \<open>The session after the one move that solves it.\<close>

definition solved_example :: App where
  "solved_example = \<lparr>tiles = map Num [0, 1, 2, 3, 4, 5, 6, 7, 8], emptyIndex = 8, moves = 1,
     seconds = 0, isStarted = True, isSolved = True, timerLive = False\<rparr>"

text \<open>An active 3 by 3 session with the empty slot in the top left corner.\<close>

definition corner_example :: App where
  "corner_example = \<lparr>tiles = map Num [8, 0, 1, 2, 3, 4, 5, 6, 7], emptyIndex = 0, moves = 0,
     seconds = 0, isStarted = True, isSolved = False, timerLive = True\<rparr>"

text \<open>A 4 by 4 board with the empty slot in the third row and three inversions.\<close>

definition board_example4 :: "int list" where
  "board_example4 = [0, 1, 2, 3, 4, 5, 6, 7, 8, 9, 10, 15, 12, 13, 14, 11]"

section \<open>Properties\<close>

subsection \<open>Arithmetic of the remainder\<close>

lemma js_rem_2_eq_0: "js_rem a 2 = 0 \<longleftrightarrow> even a"
  by (auto simp: js_rem_def sgn_if even_iff_mod_2_eq_zero abs_if split: if_splits)

subsection \<open>indexOf\<close>

lemma indexOf_from_bounds:
  "v \<in> set xs \<Longrightarrow> i \<le> indexOf_from xs v i \<and> indexOf_from xs v i < i + int (length xs)"
proof (induction xs arbitrary: i)
  case Nil
  then show ?case by simp
next
  case (Cons x xs)
  show ?case
  proof (cases "x = v")
    case True
    then show ?thesis by simp
  next
    case False
    with Cons.prems have "v \<in> set xs" by simp
    from Cons.IH[OF this, of "i + 1"] False show ?thesis by simp
  qed
qed

lemma indexOf_from_nth:
  "v \<in> set xs \<Longrightarrow> xs ! nat (indexOf_from xs v i - i) = v"
proof (induction xs arbitrary: i)
  case Nil
  then show ?case by simp
next
  case (Cons x xs)
  show ?case
  proof (cases "x = v")
    case True
    then show ?thesis by simp
  next
    case False
    with Cons.prems have m: "v \<in> set xs" by simp
    from indexOf_from_bounds[OF m, of "i + 1"]
    have "nat (indexOf_from xs v (i + 1) - i) = Suc (nat (indexOf_from xs v (i + 1) - (i + 1)))"
      by linarith
    with Cons.IH[OF m, of "i + 1"] False show ?thesis by simp
  qed
qed

lemma indexOf_bounds: "v \<in> set xs \<Longrightarrow> 0 \<le> indexOf xs v \<and> indexOf xs v < int (length xs)"
  using indexOf_from_bounds[of v xs 0] by (simp add: indexOf_def)

lemma indexOf_nth: "v \<in> set xs \<Longrightarrow> xs ! nat (indexOf xs v) = v"
  using indexOf_from_nth[of v xs 0] by (simp add: indexOf_def)

lemma indexOf_unique:
  assumes "distinct xs" and "p < length xs" and "xs ! p = v"
  shows "indexOf xs v = int p"
proof -
  from assms have m: "v \<in> set xs" by auto
  from indexOf_bounds[OF m] have "nat (indexOf xs v) < length xs" by linarith
  with assms indexOf_nth[OF m] have "nat (indexOf xs v) = p"
    by (metis nth_eq_iff_index_eq)
  with indexOf_bounds[OF m] show ?thesis by linarith
qed

subsection \<open>Counting inversions\<close>

lemma fold_count: "fold (\<lambda>j (a::nat). if P j then a + 1 else a) xs a = a + length (filter P xs)"
  by (induction xs arbitrary: a) auto

lemma fold_add: "fold (\<lambda>i (a::nat). a + f i) xs a = a + sum_list (map f xs)"
  by (induction xs arbitrary: a) auto

lemma count_inversions_sum_list:
  "count_inversions vs =
     sum_list (map (\<lambda>i. length (filter (\<lambda>j. vs ! i > vs ! j) [i + 1..<length vs])) [0..<length vs])"
  unfolding count_inversions_def fold_count fold_add by simp

lemma count_inversions_sum:
  "count_inversions vs =
     (\<Sum>i = 0..<length vs. card {j. i < j \<and> j < length vs \<and> vs ! i > vs ! j})"
proof -
  have inner: "length (filter (\<lambda>j. vs ! i > vs ! j) [i + 1..<length vs])
                 = card {j. i < j \<and> j < length vs \<and> vs ! i > vs ! j}" for i
  proof -
    have "{x. vs ! x < vs ! i} \<inter> set [i + 1..<length vs] = {j. i < j \<and> j < length vs \<and> vs ! i > vs ! j}"
      by auto
    then show ?thesis
      by (simp add: distinct_length_filter)
  qed
  show ?thesis
    unfolding count_inversions_sum_list inner
    by (simp add: interv_sum_list_conv_sum_set_nat)
qed

lemma inversion_pairs_Sigma:
  "inversion_pairs vs = (SIGMA i:{0..<length vs}. {j. i < j \<and> j < length vs \<and> vs ! i > vs ! j})"
  by (auto simp: inversion_pairs_def)

lemma count_inversions_card: "count_inversions vs = card (inversion_pairs vs)"
  unfolding inversion_pairs_Sigma count_inversions_sum
  by (subst card_SigmaI) auto

lemma filter_upt_Suc:
  "length (filter P [Suc a..<Suc b]) = length (filter (\<lambda>j. P (Suc j)) [a..<b])"
proof -
  have "[Suc a..<Suc b] = map Suc [a..<b]" by (simp add: map_Suc_upt)
  then show ?thesis by (simp add: filter_map comp_def)
qed

lemma filter_nth_upt: "length (filter (\<lambda>j. P (xs ! j)) [0..<length xs]) = length (filter P xs)"
proof -
  have "filter P (map ((!) xs) [0..<length xs]) = filter P xs" by (simp add: map_nth)
  then have "length (filter P (map ((!) xs) [0..<length xs])) = length (filter P xs)" by simp
  then show ?thesis by (simp add: filter_map comp_def)
qed

lemma count_inversions_Nil: "count_inversions [] = 0"
  by (simp add: count_inversions_def)

lemma count_inversions_Cons:
  "count_inversions (x # xs) = length (filter (\<lambda>y. y < x) xs) + count_inversions xs"
proof -
  let ?f = "\<lambda>i. length (filter (\<lambda>j. (x # xs) ! j < (x # xs) ! i) [Suc i..<Suc (length xs)])"
  let ?g = "\<lambda>i. length (filter (\<lambda>j. xs ! j < xs ! i) [Suc i..<length xs])"
  have up: "[0..<Suc (length xs)] = 0 # map Suc [0..<length xs]"
    by (simp only: map_Suc_upt upt_conv_Cons[OF zero_less_Suc])
  have hd: "?f 0 = length (filter (\<lambda>y. y < x) xs)"
    using filter_nth_upt[of "\<lambda>y. y < x" xs] by (simp only: filter_upt_Suc nth_Cons_Suc nth_Cons_0)
  have tl: "?f (Suc i) = ?g i" for i
    by (simp only: filter_upt_Suc nth_Cons_Suc)
  have "count_inversions (x # xs) = sum_list (map ?f [0..<Suc (length xs)])"
    by (simp only: count_inversions_sum_list length_Cons Suc_eq_plus1)
  also have "\<dots> = ?f 0 + sum_list (map (\<lambda>i. ?f (Suc i)) [0..<length xs])"
    by (simp only: up list.map sum_list.Cons map_map comp_def)
  also have "\<dots> = length (filter (\<lambda>y. y < x) xs) + sum_list (map ?g [0..<length xs])"
    by (simp only: hd tl)
  also have "sum_list (map ?g [0..<length xs]) = count_inversions xs"
    by (simp only: count_inversions_sum_list Suc_eq_plus1)
  finally show ?thesis .
qed

text \<open>
  C2. The solvability test counts, over the board without the empty-slot identifier
  \<open>N * N - 1\<close>, the pairs of positions \<open>i < j\<close> with the value at \<open>i\<close> above the value at
  \<open>j\<close>. For odd \<open>N\<close> it answers true exactly when that count is even; for even \<open>N\<close> exactly
  when one and only one of \<open>N - row\<close> and the count is even, \<open>row\<close> being the row of the
  empty slot counted from the top from \<open>0\<close>.
\<close>

theorem isSolvable_parity:
  assumes "0 < sz" and "distinct board" and "p < length board" and "board ! p = sz * sz - 1"
  shows "count_inversions (filter (\<lambda>t. t \<noteq> sz * sz - 1) board)
           = card (inversion_pairs (filter (\<lambda>t. t \<noteq> sz * sz - 1) board))
       \<and> (isSolvable board sz \<longleftrightarrow>
            (if odd sz then even (card (inversion_pairs (filter (\<lambda>t. t \<noteq> sz * sz - 1) board)))
             else (even (sz - int p div sz)
                     \<noteq> even (card (inversion_pairs (filter (\<lambda>t. t \<noteq> sz * sz - 1) board))))))"
proof -
  have ix: "indexOf board (sz * sz - 1) = int p"
    using assms by (simp add: indexOf_unique)
  show ?thesis
    by (simp add: isSolvable_def Let_def js_rem_2_eq_0 ix count_inversions_card)
qed

lemma board_example4_facts:
  "distinct board_example4" "11 < length board_example4" "board_example4 ! 11 = 4 * 4 - 1"
  "count_inversions (filter (\<lambda>t. t \<noteq> 4 * 4 - 1) board_example4) = 3"
  by (simp_all add: board_example4_def count_inversions_Cons count_inversions_Nil)

theorem isSolvable_parity_witness:
  "(0::int) < 4 \<and> distinct board_example4 \<and> 11 < length board_example4
   \<and> board_example4 ! 11 = 4 * 4 - 1
   \<and> card (inversion_pairs (filter (\<lambda>t. t \<noteq> 4 * 4 - 1) board_example4)) = 3
   \<and> isSolvable board_example4 4"
proof -
  have sz: "(0::int) < 4" by simp
  note f = board_example4_facts
  from isSolvable_parity[OF sz f(1) f(2) f(3)] f show ?thesis by simp
qed

subsection \<open>The shuffle\<close>

lemma draw_in_range:
  assumes "0 \<le> r" "r < 1"
  shows "nat \<lfloor>r * real (Suc i + 1)\<rfloor> \<le> Suc i"
proof -
  have "r * real (Suc i + 1) < real (Suc i + 1)"
    using assms by simp
  then have "\<lfloor>r * real (Suc i + 1)\<rfloor> < int (Suc i + 1)"
    by (simp add: floor_less_iff)
  then show ?thesis by linarith
qed

lemma shuffle_loop_mset:
  assumes "\<forall>k. 0 \<le> rnd k \<and> rnd k < 1"
  shows "i < length xs \<Longrightarrow> mset (fst (shuffle_loop rnd k i xs)) = mset xs"
proof (induction i arbitrary: k xs)
  case 0
  then show ?case by simp
next
  case (Suc i)
  let ?j = "nat \<lfloor>rnd k * real (Suc i + 1)\<rfloor>"
  let ?ys = "xs[Suc i := xs ! ?j, ?j := xs ! Suc i]"
  have j: "?j \<le> Suc i" using assms by (intro draw_in_range) auto
  with Suc.prems have jl: "?j < length xs" by linarith
  have m: "mset ?ys = mset xs"
    using mset_swap[OF jl Suc.prems] .
  have l: "i < length ?ys" using Suc.prems by simp
  from Suc.IH[OF l, of "Suc k"] m show ?case
    by (simp add: Let_def)
qed

lemma shuffle_loop_snd: "snd (shuffle_loop rnd k i xs) = k + i"
  by (induction i arbitrary: k xs) (auto simp: Let_def)

lemma shuffle_snd: "snd (shuffle rnd k xs) = k + (length xs - 1)"
  by (simp add: shuffle_def shuffle_loop_snd)

lemma length_initialTiles: "length (initialTiles sz) = nat (sz * sz)"
  by (simp add: initialTiles_def)

lemma distinct_initialTiles: "distinct (initialTiles sz)"
  by (simp add: initialTiles_def distinct_map inj_on_def)

lemma set_initialTiles: "set (initialTiles sz) = {0..sz * sz - 1}"
proof -
  have "int ` {0..<nat (sz * sz)} = {0..sz * sz - 1}"
  proof (intro set_eqI iffI)
    fix x assume "x \<in> int ` {0..<nat (sz * sz)}"
    then show "x \<in> {0..sz * sz - 1}" by auto
  next
    fix x assume "x \<in> {0..sz * sz - 1}"
    then have "nat x \<in> {0..<nat (sz * sz)}" and "x = int (nat x)" by auto
    then show "x \<in> int ` {0..<nat (sz * sz)}" by blast
  qed
  then show ?thesis by (simp add: initialTiles_def)
qed

lemma shuffle_initial_mset:
  assumes "\<forall>k. 0 \<le> rnd k \<and> rnd k < 1" "sz \<noteq> 0"
  shows "mset (fst (shuffle rnd k (initialTiles sz))) = mset (initialTiles sz)"
proof -
  have "0 < sz * sz" using assms(2) by (cases "0 < sz") (auto simp: zero_less_mult_iff)
  then have "length (initialTiles sz) - 1 < length (initialTiles sz)"
    by (simp add: length_initialTiles)
  from shuffle_loop_mset[OF assms(1) this] show ?thesis
    by (simp add: shuffle_def)
qed

lemma mset_initialTiles_props:
  assumes "mset b = mset (initialTiles sz)"
  shows "distinct b" "set b = {0..sz * sz - 1}" "length b = nat (sz * sz)"
proof -
  show "distinct b"
    using mset_eq_imp_distinct_iff[OF assms] distinct_initialTiles[of sz] by simp
  show "set b = {0..sz * sz - 1}"
    using mset_eq_setD[OF assms] set_initialTiles[of sz] by simp
  show "length b = nat (sz * sz)"
    using mset_eq_length[OF assms] length_initialTiles[of sz] by simp
qed

subsection \<open>The rejection loop\<close>

lemma generateBoard_accepts:
  assumes "generateBoard rnd k sz = Some y"
  shows "(\<forall>k. 0 \<le> rnd k \<and> rnd k < 1) \<longrightarrow> sz \<noteq> 0 \<longrightarrow>
           mset (fst y) = mset (initialTiles sz) \<and> isSolvable (fst y) sz \<and> fst y \<noteq> initialTiles sz"
proof (rule generateBoard.raw_induct[where P = "\<lambda>rnd k sz y. (\<forall>k. 0 \<le> rnd k \<and> rnd k < 1) \<longrightarrow> sz \<noteq> 0 \<longrightarrow>
           mset (fst y) = mset (initialTiles sz) \<and> isSolvable (fst y) sz \<and> fst y \<noteq> initialTiles sz", OF _ assms])
  fix gb :: "(nat \<Rightarrow> real) \<Rightarrow> nat \<Rightarrow> int \<Rightarrow> (int list \<times> nat) option"
  fix rnd k sz y
  assume IH: "\<And>rnd k sz y. gb rnd k sz = Some y \<Longrightarrow> (\<forall>k. 0 \<le> rnd k \<and> rnd k < 1) \<longrightarrow> sz \<noteq> 0 \<longrightarrow>
           mset (fst y) = mset (initialTiles sz) \<and> isSolvable (fst y) sz \<and> fst y \<noteq> initialTiles sz"
  assume eq: "(case shuffle rnd k (initialTiles sz) of
      (shuffledTiles, k') \<Rightarrow>
        if \<not> isSolvable shuffledTiles sz \<or> shuffledTiles = initialTiles sz
        then gb rnd k' sz else Some (shuffledTiles, k')) = Some y"
  show "(\<forall>k. 0 \<le> rnd k \<and> rnd k < 1) \<longrightarrow> sz \<noteq> 0 \<longrightarrow>
           mset (fst y) = mset (initialTiles sz) \<and> isSolvable (fst y) sz \<and> fst y \<noteq> initialTiles sz"
  proof (cases "shuffle rnd k (initialTiles sz)")
    case (Pair sh k1)
    show ?thesis
    proof (cases "\<not> isSolvable sh sz \<or> sh = initialTiles sz")
      case True
      with eq Pair have "gb rnd k1 sz = Some y" by (simp split: if_splits)
      from IH[OF this] show ?thesis .
    next
      case False
      with eq Pair have "y = (sh, k1)" by simp
      with False Pair shuffle_initial_mset[of rnd sz k] show ?thesis by auto
    qed
  qed
qed

lemma shuffle_attempt:
  "shuffle rnd k (initialTiles sz) = (attempt rnd k sz 0, k + (nat (sz * sz) - 1))"
  by (simp add: attempt_def prod_eq_iff shuffle_snd length_initialTiles)

lemma attempt_shift:
  "attempt rnd (k + (nat (sz * sz) - 1)) sz n = attempt rnd k sz (Suc n)"
  by (simp add: attempt_def add.assoc add.commute)

lemma generateBoard_returns:
  "accepted sz (attempt rnd k sz n) \<Longrightarrow>
     \<exists>m\<le>n. accepted sz (attempt rnd k sz m) \<and>
       generateBoard rnd k sz = Some (attempt rnd k sz m, k + Suc m * (nat (sz * sz) - 1))"
proof (induction n arbitrary: k)
  case 0
  then have "generateBoard rnd k sz = Some (attempt rnd k sz 0, k + (nat (sz * sz) - 1))"
    by (subst generateBoard.simps) (simp add: accepted_def shuffle_attempt)
  with 0 show ?case by auto
next
  case (Suc n)
  show ?case
  proof (cases "accepted sz (attempt rnd k sz 0)")
    case True
    then have "generateBoard rnd k sz = Some (attempt rnd k sz 0, k + (nat (sz * sz) - 1))"
      by (subst generateBoard.simps) (simp add: accepted_def shuffle_attempt)
    with True show ?thesis by auto
  next
    case False
    then have eq: "generateBoard rnd k sz = generateBoard rnd (k + (nat (sz * sz) - 1)) sz"
      by (subst generateBoard.simps) (auto simp: accepted_def shuffle_attempt)
    from Suc.prems have "accepted sz (attempt rnd (k + (nat (sz * sz) - 1)) sz n)"
      by (simp only: attempt_shift)
    from Suc.IH[OF this] obtain m where m: "m \<le> n"
      "accepted sz (attempt rnd (k + (nat (sz * sz) - 1)) sz m)"
      "generateBoard rnd (k + (nat (sz * sz) - 1)) sz
         = Some (attempt rnd (k + (nat (sz * sz) - 1)) sz m, k + (nat (sz * sz) - 1) + Suc m * (nat (sz * sz) - 1))"
      by auto
    have k: "k + (nat (sz * sz) - 1) + Suc m * (nat (sz * sz) - 1) = k + Suc (Suc m) * (nat (sz * sz) - 1)"
      by simp
    from m show ?thesis
      unfolding eq attempt_shift k
      by (intro exI[of _ "Suc m"]) simp
  qed
qed

subsection \<open>The example\<close>

lemma initialTiles_3: "initialTiles 3 = [0, 1, 2, 3, 4, 5, 6, 7, 8]"
  by (simp add: initialTiles_def upt_conv_Cons)

lemma shuffle_example:
  "shuffle rnd_example 0 [0, 1, 2, 3, 4, 5, 6, 7, 8] = ([0, 1, 2, 3, 4, 5, 6, 8, 7], 8)"
  by (simp add: shuffle_def rnd_example_def eval_nat_numeral)

lemma isSolvable_example: "isSolvable [0, 1, 2, 3, 4, 5, 6, 8, 7] 3"
  by (simp add: isSolvable_def count_inversions_Cons count_inversions_Nil js_rem_def)

lemma generateBoard_example: "generateBoard rnd_example 0 3 = Some ([0, 1, 2, 3, 4, 5, 6, 8, 7], 8)"
  by (subst generateBoard.simps) (simp add: shuffle_example isSolvable_example initialTiles_3)

lemma initPuzzle_example: "initPuzzle rnd_example 0 3 s = Some (session_example, 8)"
  by (simp add: initPuzzle_def generateBoard_example session_example_def indexOf_def)

lemma rnd_example_valid: "\<forall>k. 0 \<le> rnd_example k \<and> rnd_example k < 1"
  by (simp add: rnd_example_def)

text \<open>
  C1. For a grid size \<open>N\<close> of 3, 4 or 5, every board \<open>initPuzzle\<close> obtains from its
  rejection loop is a permutation of \<open>0, \<dots>, N * N - 1\<close> (every value exactly once), differs
  from the solved sequence \<open>[0, 1, \<dots>, N * N - 1]\<close>, passes the parity test \<open>isSolvable\<close>, and
  is stored together with an \<open>emptyIndex\<close> that is the index of \<open>N * N - 1\<close> in the board.
\<close>

theorem initPuzzle_board:
  assumes "sz \<in> {3, 4, 5}" and "\<forall>k. 0 \<le> rnd k \<and> rnd k < 1"
    and "initPuzzle rnd k sz s = Some (s', k')"
  shows "\<exists>board. tiles s' = map Num board
           \<and> distinct board \<and> set board = {0..sz * sz - 1} \<and> length board = nat (sz * sz)
           \<and> board \<noteq> map int [0..<nat (sz * sz)]
           \<and> isSolvable board sz
           \<and> emptyIndex s' = indexOf board (sz * sz - 1)
           \<and> 0 \<le> emptyIndex s' \<and> emptyIndex s' < sz * sz
           \<and> board ! nat (emptyIndex s') = sz * sz - 1"
proof -
  from assms(3) obtain board where
    gen: "generateBoard rnd k sz = Some (board, k')" and
    s': "s' = \<lparr>tiles = map Num board, emptyIndex = indexOf board (sz * sz - 1),
                moves = 0, seconds = 0, isStarted = True, isSolved = False, timerLive = True\<rparr>"
    by (auto simp: initPuzzle_def split: option.splits)
  have nz: "sz \<noteq> 0" using assms(1) by auto
  from generateBoard_accepts[OF gen] assms(2) nz have
    m: "mset board = mset (initialTiles sz)" and sol: "isSolvable board sz"
    and ne: "board \<noteq> initialTiles sz" by auto
  note p = mset_initialTiles_props[OF m]
  have "0 < sz * sz" using assms(1) by auto
  then have mem: "sz * sz - 1 \<in> set board" using p(2) by simp
  from indexOf_bounds[OF mem] indexOf_nth[OF mem] p sol ne s' show ?thesis
    by (intro exI[of _ board]) (simp add: initialTiles_def)
qed

theorem initPuzzle_board_witness:
  "(3::int) \<in> {3, 4, 5} \<and> initPuzzle rnd_example 0 3 initialApp = Some (session_example, 8)
   \<and> (\<exists>board. tiles session_example = map Num board
           \<and> distinct board \<and> set board = {0..3 * 3 - 1} \<and> length board = nat (3 * 3)
           \<and> board \<noteq> map int [0..<nat (3 * 3)]
           \<and> isSolvable board 3
           \<and> emptyIndex session_example = indexOf board (3 * 3 - 1)
           \<and> 0 \<le> emptyIndex session_example \<and> emptyIndex session_example < 3 * 3
           \<and> board ! nat (emptyIndex session_example) = 3 * 3 - 1)"
proof -
  have sz: "(3::int) \<in> {3, 4, 5}" by simp
  note ex = initPuzzle_example[of initialApp]
  show ?thesis
    by (rule conjI[OF sz conjI[OF ex initPuzzle_board[OF sz rnd_example_valid ex]]])
qed


lemma accepted_example: "accepted 3 (attempt rnd_example 0 3 0)"
  by (simp add: accepted_def attempt_def initialTiles_3 shuffle_example isSolvable_example)

text \<open>
  C9. \<open>initPuzzle\<close> stores the freshly generated board and the index of its empty slot,
  sets the move count and the elapsed seconds to \<open>0\<close> and makes the session active (started,
  not solved, timer running). The state before the call has no influence: called from any
  state \<open>s\<close> or \<open>t\<close>, also a solved one, the result is the same fresh state. The loop returns
  as soon as one of its shuffles is accepted, which is the hypothesis.
\<close>

theorem initPuzzle_fresh:
  assumes "accepted sz (attempt rnd k sz n)"
  shows "\<exists>s' k' board. initPuzzle rnd k sz s = Some (s', k')
           \<and> generateBoard rnd k sz = Some (board, k')
           \<and> tiles s' = map Num board \<and> emptyIndex s' = indexOf board (sz * sz - 1)
           \<and> moves s' = 0 \<and> seconds s' = 0
           \<and> isStarted s' \<and> \<not> isSolved s' \<and> timerLive s'
           \<and> initPuzzle rnd k sz t = Some (s', k')"
proof -
  from generateBoard_returns[OF assms] obtain m where
    "generateBoard rnd k sz = Some (attempt rnd k sz m, k + Suc m * (nat (sz * sz) - 1))"
    by blast
  then show ?thesis
    by (simp add: initPuzzle_def)
qed

theorem initPuzzle_fresh_witness:
  "accepted 3 (attempt rnd_example 0 3 0)
   \<and> initPuzzle rnd_example 0 3 initialApp = Some (session_example, 8)
   \<and> initPuzzle rnd_example 0 3 solved_example = Some (session_example, 8)
   \<and> moves session_example = 0 \<and> seconds session_example = 0
   \<and> isStarted session_example \<and> \<not> isSolved session_example"
  using initPuzzle_fresh[OF accepted_example, of initialApp solved_example] accepted_example
  by (auto simp add: initPuzzle_example)

subsection \<open>The click handler on a well-formed board\<close>

lemma js_rem_nonneg: "0 \<le> a \<Longrightarrow> 0 < b \<Longrightarrow> js_rem a b = a mod b"
  by (cases "a = 0") (simp_all add: js_rem_def)

lemma isAdjacent_in_range:
  "0 \<le> index \<Longrightarrow> 0 \<le> e \<Longrightarrow> 0 < sz \<Longrightarrow> isAdjacent sz index e = adjacent_cells sz index e"
  by (auto simp add: isAdjacent_def adjacent_cells_def Let_def js_rem_nonneg)

lemma spread_no_hole: "Hole \<notin> set a \<Longrightarrow> spread a = a"
  by (induction a) (auto simp: spread_def split: elem.splits)

lemma js_get_in:
  "0 \<le> i \<Longrightarrow> i < int (length a) \<Longrightarrow> Hole \<notin> set a \<Longrightarrow> js_get a i = a ! nat i"
proof -
  assume i: "0 \<le> i" "i < int (length a)" and h: "Hole \<notin> set a"
  then have "a ! nat i \<in> set a" by simp
  with h have "a ! nat i \<noteq> Hole" by metis
  with i show ?thesis by (simp add: js_get_def split: elem.splits)
qed

lemma js_set_in:
  "0 \<le> i \<Longrightarrow> i < int (length a) \<Longrightarrow> length a < 4294967295 \<Longrightarrow> js_set a i v = a[nat i := v]"
  by (simp add: js_set_def)

lemma handleTileClick_move:
  assumes "isStarted s" and "\<not> isSolved s" and "isAdjacent sz index (emptyIndex s)"
    and "Hole \<notin> set (tiles s)" and "length (tiles s) < 4294967295"
    and "0 \<le> index" and "index < int (length (tiles s))"
    and "0 \<le> emptyIndex s" and "emptyIndex s < int (length (tiles s))"
  shows "handleTileClick sz index s =
     s\<lparr>tiles := (tiles s)[nat index := tiles s ! nat (emptyIndex s),
                           nat (emptyIndex s) := tiles s ! nat index],
       emptyIndex := index, moves := moves s + 1,
       isSolved := every_from 0 ((tiles s)[nat index := tiles s ! nat (emptyIndex s),
                           nat (emptyIndex s) := tiles s ! nat index]),
       timerLive := (if every_from 0 ((tiles s)[nat index := tiles s ! nat (emptyIndex s),
                           nat (emptyIndex s) := tiles s ! nat index]) then False else timerLive s)\<rparr>"
  using assms
  by (simp add: handleTileClick_def Let_def spread_no_hole js_get_in js_set_in)

lemma every_from_map_Num: "every_from i (map Num b) \<longleftrightarrow> b = map int [i..<i + length b]"
proof (induction b arbitrary: i)
  case Nil
  then show ?case by simp
next
  case (Cons x b)
  have "i < i + length (x # b)" by simp
  from upt_conv_Cons[OF this]
  have "[i..<i + length (x # b)] = i # [Suc i..<Suc i + length b]"
    by (simp only: length_Cons add_Suc_right add_Suc)
  with Cons.IH[of "Suc i"] show ?case by (simp only: list.map every_from.simps) auto
qed

text \<open>
  C3. In an active session, a click on a cell of the grid that is adjacent to the empty slot
  along a row or a column exchanges exactly the two board entries at the clicked position
  and at the empty-slot position, adds \<open>1\<close> to the move count, makes the clicked position the
  new \<open>emptyIndex\<close>, and sets \<open>isSolved\<close> exactly when the new board is the identity
  sequence. On the board \<open>[0,1,2,3,4,5,6,8,7]\<close> with the empty slot at index \<open>7\<close>, the click
  on \<open>8\<close> gives the identity board, solved, with one more move.
\<close>

theorem handleTileClick_legal_move:
  assumes "sz \<in> {3, 4, 5}" and "isStarted s" and "\<not> isSolved s"
    and "tiles s = map Num board" and "length board = nat (sz * sz)"
    and "0 \<le> emptyIndex s" and "emptyIndex s < sz * sz"
    and "0 \<le> index" and "index < sz * sz"
    and "adjacent_cells sz index (emptyIndex s)"
  shows "\<exists>board'. tiles (handleTileClick sz index s) = map Num board'
           \<and> length board' = length board
           \<and> board' ! nat index = board ! nat (emptyIndex s)
           \<and> board' ! nat (emptyIndex s) = board ! nat index
           \<and> (\<forall>p. p < length board \<and> p \<noteq> nat index \<and> p \<noteq> nat (emptyIndex s) \<longrightarrow> board' ! p = board ! p)
           \<and> moves (handleTileClick sz index s) = moves s + 1
           \<and> emptyIndex (handleTileClick sz index s) = index
           \<and> seconds (handleTileClick sz index s) = seconds s
           \<and> isStarted (handleTileClick sz index s)
           \<and> (isSolved (handleTileClick sz index s) \<longleftrightarrow> board' = map int [0..<nat (sz * sz)])"
proof -
  let ?e = "emptyIndex s"
  let ?b = "board[nat index := board ! nat ?e, nat ?e := board ! nat index]"
  have sz: "0 < sz" and len: "length (tiles s) < 4294967295"
    using assms(1,4,5) by auto
  have hole: "Hole \<notin> set (tiles s)" using assms(4) by auto
  have ie: "index < int (length (tiles s))" "?e < int (length (tiles s))"
    using assms(4,5,7,9) by auto
  have adj: "isAdjacent sz index ?e"
    using assms(6,8,10) sz by (simp add: isAdjacent_in_range)
  have ne: "index \<noteq> ?e"
    using assms(10) by (auto simp: adjacent_cells_def)
  have t: "(tiles s)[nat index := tiles s ! nat ?e, nat ?e := tiles s ! nat index] = map Num ?b"
    using assms(4) ie assms(6,8) by (simp add: map_update)
  note mv = handleTileClick_move[OF assms(2,3) adj hole len assms(8) ie(1) assms(6) ie(2), unfolded t]
  have nn: "nat index \<noteq> nat ?e" using ne assms(6,8) by auto
  have il: "nat index < length board" "nat ?e < length board"
    using ie assms(4,6,8) by auto
  show ?thesis
    apply (rule exI[of _ ?b])
    apply (subst mv)+
    using nn il assms(2,5)
    apply (simp add: every_from_map_Num)
    done
qed


lemma session_example_facts:
  "isStarted session_example" "\<not> isSolved session_example"
  "tiles session_example = map Num [0, 1, 2, 3, 4, 5, 6, 8, 7]"
  "emptyIndex session_example = 7" "moves session_example = 0" "seconds session_example = 0"
  "timerLive session_example"
  by (simp_all add: session_example_def)

lemma move_example: "handleTileClick 3 8 session_example = solved_example"
  by (simp add: handleTileClick_def session_example_def solved_example_def isAdjacent_def
      js_rem_def Let_def spread_def js_get_def js_set_def)

theorem handleTileClick_legal_move_witness:
  "(3::int) \<in> {3, 4, 5} \<and> isStarted session_example \<and> \<not> isSolved session_example
   \<and> tiles session_example = map Num [0, 1, 2, 3, 4, 5, 6, 8, 7]
   \<and> emptyIndex session_example = 7 \<and> adjacent_cells 3 8 7
   \<and> tiles (handleTileClick 3 8 session_example) = map Num [0, 1, 2, 3, 4, 5, 6, 7, 8]
   \<and> isSolved (handleTileClick 3 8 session_example)
   \<and> moves (handleTileClick 3 8 session_example) = moves session_example + 1
   \<and> emptyIndex (handleTileClick 3 8 session_example) = 8"
proof -
  have sz: "(3::int) \<in> {3, 4, 5}" by simp
  have adj: "adjacent_cells 3 8 (emptyIndex session_example)"
    by (simp add: adjacent_cells_def session_example_facts)
  note f = session_example_facts
  from handleTileClick_legal_move[OF sz f(1) f(2) f(3) _ _ _ _ _ adj]
  have "\<exists>board'. tiles (handleTileClick 3 8 session_example) = map Num board'
           \<and> moves (handleTileClick 3 8 session_example) = moves session_example + 1
           \<and> emptyIndex (handleTileClick 3 8 session_example) = 8
           \<and> (isSolved (handleTileClick 3 8 session_example) \<longleftrightarrow> board' = map int [0..<nat (3 * 3)])"
    by (simp add: f) blast
  with adj f show ?thesis
    by (simp add: move_example solved_example_def)
qed

text \<open>
  C5. In an active session, a click on a cell of the grid that is neither in the row of the
  empty slot and a neighbouring column nor in its column and a neighbouring row (a diagonal
  neighbour, the empty slot itself, any cell further away) changes nothing: the state after
  the handler is the state before it. The handler is a total function; it raises nothing.
\<close>

theorem handleTileClick_not_adjacent:
  assumes "0 < sz" and "isStarted s" and "\<not> isSolved s"
    and "0 \<le> emptyIndex s" and "emptyIndex s < sz * sz"
    and "0 \<le> index" and "index < sz * sz"
    and "\<not> adjacent_cells sz index (emptyIndex s)"
  shows "handleTileClick sz index s = s"
proof -
  from assms(1,4,6,8) have "\<not> isAdjacent sz index (emptyIndex s)"
    by (simp add: isAdjacent_in_range)
  then show ?thesis by (simp add: handleTileClick_def)
qed

theorem handleTileClick_not_adjacent_witness:
  "(0::int) < 3 \<and> isStarted session_example \<and> \<not> isSolved session_example
   \<and> emptyIndex session_example = 7
   \<and> \<not> adjacent_cells 3 0 7 \<and> \<not> adjacent_cells 3 3 7 \<and> \<not> adjacent_cells 3 7 7
   \<and> handleTileClick 3 0 session_example = session_example
   \<and> handleTileClick 3 3 session_example = session_example
   \<and> handleTileClick 3 7 session_example = session_example"
proof -
  have sz: "(0::int) < 3" by simp
  note f = session_example_facts
  have e: "0 \<le> emptyIndex session_example" "emptyIndex session_example < 3 * 3"
    by (simp_all add: f)
  have a: "\<not> adjacent_cells 3 0 (emptyIndex session_example)"
    "\<not> adjacent_cells 3 3 (emptyIndex session_example)"
    "\<not> adjacent_cells 3 7 (emptyIndex session_example)"
    by (simp_all add: adjacent_cells_def f)
  from handleTileClick_not_adjacent[OF sz f(1) f(2) e _ _ a(1)]
    handleTileClick_not_adjacent[OF sz f(1) f(2) e _ _ a(2)]
    handleTileClick_not_adjacent[OF sz f(1) f(2) e _ _ a(3)]
    a f
  show ?thesis by simp
qed

text \<open>
  C8. While the session is not started (no board yet) or already solved, \<open>handleTileClick\<close>
  returns at once: for every position, inside the grid or not, the state is unchanged.
\<close>

theorem handleTileClick_ignored:
  assumes "\<not> isStarted s \<or> isSolved s"
  shows "handleTileClick sz index s = s"
  using assms by (auto simp add: handleTileClick_def)

theorem handleTileClick_ignored_witness:
  "\<not> isStarted initialApp \<and> isSolved solved_example
   \<and> handleTileClick 3 4 initialApp = initialApp
   \<and> handleTileClick 3 (- 1) initialApp = initialApp
   \<and> handleTileClick 3 7 solved_example = solved_example
   \<and> handleTileClick 3 11 solved_example = solved_example"
proof -
  have u: "\<not> isStarted initialApp \<or> isSolved initialApp"
    by (simp add: initialApp_def)
  have v: "\<not> isStarted solved_example \<or> isSolved solved_example"
    by (simp add: solved_example_def)
  from handleTileClick_ignored[OF u, of 3 4] handleTileClick_ignored[OF u, of 3 "- 1"]
    handleTileClick_ignored[OF v, of 3 7] handleTileClick_ignored[OF v, of 3 11]
  show ?thesis by (simp add: initialApp_def solved_example_def)
qed

subsection \<open>Clicks outside the grid\<close>

lemma js_rem_neg: "a < 0 \<Longrightarrow> js_rem a b = - ((- a) mod \<bar>b\<bar>)"
  by (simp add: js_rem_def)

lemma outside_low:
  fixes index e sz :: int
  assumes sz: "0 < sz" and e: "0 \<le> e" and neg: "index < 0"
    and adj: "(\<bar>index div sz - e div sz\<bar> = 1 \<and> - ((- index) mod sz) = e mod sz)
      \<or> (\<bar>- ((- index) mod sz) - e mod sz\<bar> = 1 \<and> index div sz = e div sz)"
  shows "index = - sz \<and> e = 0"
proof -
  have q: "index div sz < 0" using neg sz by (simp add: div_neg_pos_less0)
  have qe: "0 \<le> e div sz" using e sz by (simp add: pos_imp_zdiv_nonneg_iff)
  have re: "0 \<le> e mod sz" using sz by simp
  have rn: "0 \<le> (- index) mod sz" using sz by simp
  from adj q qe have rows: "\<bar>index div sz - e div sz\<bar> = 1" and cols: "- ((- index) mod sz) = e mod sz"
    by auto
  from rows q qe have q1: "index div sz = - 1" and qe0: "e div sz = 0" by linarith+
  from cols re rn have re0: "e mod sz = 0" and rn0: "(- index) mod sz = 0" by linarith+
  from rn0 have "sz dvd - index" by (simp add: mod_eq_0_iff_dvd)
  then have "index mod sz = 0" by (simp add: mod_eq_0_iff_dvd)
  with q1 mult_div_mod_eq[of sz index] have i: "index = - sz" by simp
  from qe0 re0 mult_div_mod_eq[of sz e] have "e = 0" by simp
  with i show ?thesis by simp
qed

lemma outside_high:
  fixes index e sz :: int
  assumes sz: "0 < sz" and e: "0 \<le> e" "e < sz * sz" and hi: "sz * sz \<le> index"
    and adj: "(\<bar>index div sz - e div sz\<bar> = 1 \<and> index mod sz = e mod sz)
      \<or> (\<bar>index mod sz - e mod sz\<bar> = 1 \<and> index div sz = e div sz)"
  shows "index = e + sz"
proof -
  have "sz * sz div sz \<le> index div sz" using hi sz by (rule zdiv_mono1)
  then have q: "sz \<le> index div sz" using sz by simp
  have qe: "e div sz < sz"
  proof (rule ccontr)
    assume "\<not> e div sz < sz"
    then have "sz * sz \<le> sz * (e div sz)" using sz by (simp add: mult_left_mono)
    moreover have "sz * (e div sz) \<le> e"
      using mult_div_mod_eq[of sz e] sz pos_mod_sign[of sz e] by linarith
    ultimately show False using e(2) by linarith
  qed
  from adj q qe have rows: "index div sz = e div sz + 1" and cols: "index mod sz = e mod sz"
    by auto
  have "index = sz * (index div sz) + index mod sz" by simp
  also have "\<dots> = sz * (e div sz) + e mod sz + sz" by (simp add: rows cols algebra_simps)
  also have "\<dots> = e + sz" by simp
  finally show ?thesis .
qed

lemma isAdjacent_outside:
  assumes "0 < sz" and "0 \<le> e" and "e < sz * sz"
    and "index < 0 \<or> sz * sz \<le> index" and "isAdjacent sz index e"
  shows "index = e + sz \<or> (index = - sz \<and> e = 0)"
proof (cases "index < 0")
  case True
  with assms(1,2,5) have
    "(\<bar>index div sz - e div sz\<bar> = 1 \<and> - ((- index) mod sz) = e mod sz)
      \<or> (\<bar>- ((- index) mod sz) - e mod sz\<bar> = 1 \<and> index div sz = e div sz)"
    by (simp add: isAdjacent_def Let_def js_rem_neg js_rem_nonneg)
  from outside_low[OF assms(1,2) True this] show ?thesis by simp
next
  case False
  with assms(4) have hi: "sz * sz \<le> index" and "0 \<le> index" by auto
  with assms(1,2,5) have
    "(\<bar>index div sz - e div sz\<bar> = 1 \<and> index mod sz = e mod sz)
      \<or> (\<bar>index mod sz - e mod sz\<bar> = 1 \<and> index div sz = e div sz)"
    by (simp add: isAdjacent_def Let_def js_rem_nonneg)
  from outside_high[OF assms(1,2,3) hi this] show ?thesis by simp
qed

lemma isAdjacent_below: "0 < sz \<Longrightarrow> 0 \<le> e \<Longrightarrow> isAdjacent sz (e + sz) e"
  by (simp add: isAdjacent_def Let_def js_rem_nonneg)

lemma isAdjacent_above_zero: "0 < sz \<Longrightarrow> isAdjacent sz (- sz) 0"
proof -
  assume sz: "0 < sz"
  then have d: "(- sz) div sz = - 1"
    using nonzero_mult_div_cancel_left[of sz "- 1"] by simp
  from sz have r: "js_rem (- sz) sz = 0" by (simp add: js_rem_neg)
  have z: "js_rem 0 sz = 0" by (simp add: js_rem_def)
  show ?thesis by (simp add: isAdjacent_def Let_def d r z)
qed

lemma isAdjacent_outside_iff:
  assumes "0 < sz" and "0 \<le> e" and "e < sz * sz" and "index < 0 \<or> sz * sz \<le> index"
  shows "isAdjacent sz index e \<longleftrightarrow> index = e + sz \<or> (index = - sz \<and> e = 0)"
proof
  assume "isAdjacent sz index e"
  from isAdjacent_outside[OF assms this] show "index = e + sz \<or> (index = - sz \<and> e = 0)" .
next
  assume "index = e + sz \<or> (index = - sz \<and> e = 0)"
  then show "isAdjacent sz index e"
    using isAdjacent_below[OF assms(1,2)] isAdjacent_above_zero[OF assms(1)] by auto
qed

lemma handleTileClick_applied:
  assumes "isStarted s" and "\<not> isSolved s" and "isAdjacent sz index (emptyIndex s)"
  shows "moves (handleTileClick sz index s) = moves s + 1"
    and "emptyIndex (handleTileClick sz index s) = index"
    and "seconds (handleTileClick sz index s) = seconds s"
    and "handleTileClick sz index s \<noteq> s"
proof -
  show m: "moves (handleTileClick sz index s) = moves s + 1"
    using assms by (simp add: handleTileClick_def Let_def)
  show "emptyIndex (handleTileClick sz index s) = index"
    using assms by (simp add: handleTileClick_def Let_def)
  show "seconds (handleTileClick sz index s) = seconds s"
    using assms by (simp add: handleTileClick_def Let_def)
  show "handleTileClick sz index s \<noteq> s"
  proof
    assume "handleTileClick sz index s = s"
    with m show False by simp
  qed
qed

text \<open>
  C7, as the code has it. A click at a position outside the grid (negative, or at least
  \<open>N * N\<close>) raises nothing. In a session that is not active it changes nothing. In an active
  session whose cached empty index is inside the grid the position passes the adjacency test
  exactly when it is \<open>emptyIndex + N\<close> (below the bottom row) or \<open>- N\<close> with the empty slot at
  index \<open>0\<close>: at these two positions the click is applied as a move (one more move,
  \<open>emptyIndex\<close> becomes the position, the state changes), and at every other position
  outside the grid the state is unchanged. At \<open>N = 3\<close> with the empty slot at index \<open>7\<close>, the
  click at position \<open>10\<close> is such a move: the array grows, \<open>emptyIndex\<close> becomes \<open>10\<close> and the
  move count goes up.
\<close>
theorem handleTileClick_outside:
  assumes "0 < sz" and "index < 0 \<or> sz * sz \<le> index"
  shows "(\<not> isStarted s \<or> isSolved s \<longrightarrow> handleTileClick sz index s = s)
       \<and> (0 \<le> emptyIndex s \<and> emptyIndex s < sz * sz \<longrightarrow>
            (isAdjacent sz index (emptyIndex s)
               \<longleftrightarrow> index = emptyIndex s + sz \<or> (index = - sz \<and> emptyIndex s = 0)))
       \<and> (isStarted s \<and> \<not> isSolved s \<and> 0 \<le> emptyIndex s \<and> emptyIndex s < sz * sz \<longrightarrow>
            (if index = emptyIndex s + sz \<or> (index = - sz \<and> emptyIndex s = 0)
             then moves (handleTileClick sz index s) = moves s + 1
                  \<and> emptyIndex (handleTileClick sz index s) = index
                  \<and> seconds (handleTileClick sz index s) = seconds s
                  \<and> handleTileClick sz index s \<noteq> s
             else handleTileClick sz index s = s))"
proof (intro conjI impI)
  assume "\<not> isStarted s \<or> isSolved s"
  then show "handleTileClick sz index s = s" by (auto simp add: handleTileClick_def)
next
  assume "0 \<le> emptyIndex s \<and> emptyIndex s < sz * sz"
  then show "isAdjacent sz index (emptyIndex s)
               \<longleftrightarrow> index = emptyIndex s + sz \<or> (index = - sz \<and> emptyIndex s = 0)"
    using isAdjacent_outside_iff[OF assms(1) _ _ assms(2)] by blast
next
  assume a: "isStarted s \<and> \<not> isSolved s \<and> 0 \<le> emptyIndex s \<and> emptyIndex s < sz * sz"
  then have iff: "isAdjacent sz index (emptyIndex s)
               \<longleftrightarrow> index = emptyIndex s + sz \<or> (index = - sz \<and> emptyIndex s = 0)"
    using isAdjacent_outside_iff[OF assms(1) _ _ assms(2)] by blast
  show "if index = emptyIndex s + sz \<or> (index = - sz \<and> emptyIndex s = 0)
        then moves (handleTileClick sz index s) = moves s + 1
             \<and> emptyIndex (handleTileClick sz index s) = index
             \<and> seconds (handleTileClick sz index s) = seconds s
             \<and> handleTileClick sz index s \<noteq> s
        else handleTileClick sz index s = s"
  proof (cases "isAdjacent sz index (emptyIndex s)")
    case True
    with iff have p: "index = emptyIndex s + sz \<or> (index = - sz \<and> emptyIndex s = 0)"
      by blast
    from a True have q:
      "moves (handleTileClick sz index s) = moves s + 1
       \<and> emptyIndex (handleTileClick sz index s) = index
       \<and> seconds (handleTileClick sz index s) = seconds s
       \<and> handleTileClick sz index s \<noteq> s"
      using handleTileClick_applied[of s sz index] by blast
    show ?thesis unfolding if_P[OF p] by (rule q)
  next
    case False
    with iff have p: "\<not> (index = emptyIndex s + sz \<or> (index = - sz \<and> emptyIndex s = 0))"
      by blast
    from False have q: "handleTileClick sz index s = s" by (simp add: handleTileClick_def)
    show ?thesis unfolding if_not_P[OF p] by (rule q)
  qed
qed

lemma corner_example_facts:
  "isStarted corner_example" "\<not> isSolved corner_example" "emptyIndex corner_example = 0"
  "moves corner_example = 0"
  by (simp_all add: corner_example_def)

theorem handleTileClick_outside_witness:
  "(0::int) < 3 \<and> isStarted session_example \<and> \<not> isSolved session_example
   \<and> emptyIndex session_example = 7
   \<and> handleTileClick 3 9 session_example = session_example
   \<and> handleTileClick 3 11 session_example = session_example
   \<and> handleTileClick 3 (- 1) session_example = session_example
   \<and> handleTileClick 3 (- 3) session_example = session_example
   \<and> isAdjacent 3 10 7
   \<and> moves (handleTileClick 3 10 session_example) = 1
   \<and> emptyIndex (handleTileClick 3 10 session_example) = 10
   \<and> handleTileClick 3 10 session_example \<noteq> session_example
   \<and> isStarted corner_example \<and> \<not> isSolved corner_example \<and> emptyIndex corner_example = 0
   \<and> isAdjacent 3 (- 3) 0
   \<and> moves (handleTileClick 3 (- 3) corner_example) = 1
   \<and> emptyIndex (handleTileClick 3 (- 3) corner_example) = - 3
   \<and> handleTileClick 3 (- 3) corner_example \<noteq> corner_example
   \<and> handleTileClick 3 (- 6) corner_example = corner_example
   \<and> handleTileClick 3 9 corner_example = corner_example
   \<and> handleTileClick 3 (- 4) initialApp = initialApp"
proof -
  have sz: "(0::int) < 3" by simp
  note f = session_example_facts
  note c = corner_example_facts
  have u: "\<not> isStarted initialApp" by (simp add: initialApp_def)
  from handleTileClick_outside[OF sz, of 9 session_example]
    handleTileClick_outside[OF sz, of 11 session_example]
    handleTileClick_outside[OF sz, of "- 1" session_example]
    handleTileClick_outside[OF sz, of "- 3" session_example]
    handleTileClick_outside[OF sz, of 10 session_example]
    f
  have A: "handleTileClick 3 9 session_example = session_example
   \<and> handleTileClick 3 11 session_example = session_example
   \<and> handleTileClick 3 (- 1) session_example = session_example
   \<and> handleTileClick 3 (- 3) session_example = session_example
   \<and> isAdjacent 3 10 7
   \<and> moves (handleTileClick 3 10 session_example) = 1
   \<and> emptyIndex (handleTileClick 3 10 session_example) = 10
   \<and> handleTileClick 3 10 session_example \<noteq> session_example"
    by simp
  from handleTileClick_outside[OF sz, of "- 3" corner_example]
    handleTileClick_outside[OF sz, of "- 6" corner_example]
    handleTileClick_outside[OF sz, of 9 corner_example]
    handleTileClick_outside[OF sz, of "- 4" initialApp]
    c u
  have B: "isAdjacent 3 (- 3) 0
   \<and> moves (handleTileClick 3 (- 3) corner_example) = 1
   \<and> emptyIndex (handleTileClick 3 (- 3) corner_example) = - 3
   \<and> handleTileClick 3 (- 3) corner_example \<noteq> corner_example
   \<and> handleTileClick 3 (- 6) corner_example = corner_example
   \<and> handleTileClick 3 9 corner_example = corner_example
   \<and> handleTileClick 3 (- 4) initialApp = initialApp"
    by simp
  from A B f c sz show ?thesis by simp
qed

theorem handleTileClick_outside_counterexample:
  "isStarted session_example \<and> \<not> isSolved session_example
   \<and> (3::int) * 3 \<le> 10
   \<and> handleTileClick 3 10 session_example =
       \<lparr>tiles = [Num 0, Num 1, Num 2, Num 3, Num 4, Num 5, Num 6, Undefined, Num 7, Hole, Num 8],
        emptyIndex = 10, moves = 1, seconds = 0, isStarted = True, isSolved = False,
        timerLive = True\<rparr>
   \<and> handleTileClick 3 10 session_example \<noteq> session_example"
  by (simp add: handleTileClick_def session_example_def isAdjacent_def
      js_rem_def Let_def spread_def js_get_def js_set_def)

subsection \<open>Invariants of a running session\<close>

lemma run_Nil: "run sz s [] = s"
  by (simp add: run_def)

lemma run_Cons: "run sz s (e # evs) = run sz (step sz s e) evs"
  by (simp add: run_def)

lemma run_append: "run sz s (evs @ evs') = run sz (run sz s evs) evs'"
  by (simp add: run_def)

lemma board_ok_tiles:
  assumes "board_ok sz s"
  shows "distinct (tiles s)" and "set (tiles s) = Num ` {0..sz * sz - 1}"
    and "length (tiles s) = nat (sz * sz)" and "Hole \<notin> set (tiles s)"
proof -
  from assms have m: "mset (tiles s) = mset (map Num (initialTiles sz))"
    by (simp add: board_ok_def)
  have d: "distinct (map Num (initialTiles sz))"
    by (simp add: distinct_map distinct_initialTiles inj_on_def)
  from mset_eq_imp_distinct_iff[OF m] d show "distinct (tiles s)" by simp
  from mset_eq_setD[OF m] show st: "set (tiles s) = Num ` {0..sz * sz - 1}"
    by (simp add: set_initialTiles)
  from mset_eq_length[OF m] show "length (tiles s) = nat (sz * sz)"
    by (simp add: length_initialTiles)
  from st show "Hole \<notin> set (tiles s)" by auto
qed

lemma handleTileClick_board_ok:
  assumes sz: "sz \<in> {3, 4, 5}" and ok: "board_ok sz s"
    and idx: "0 \<le> index" "index < sz * sz"
  shows "board_ok sz (handleTileClick sz index s)"
proof (cases "isStarted s \<and> \<not> isSolved s \<and> isAdjacent sz index (emptyIndex s)")
  case False
  then have "handleTileClick sz index s = s"
    by (auto simp add: handleTileClick_def)
  with ok show ?thesis by simp
next
  case True
  note t = board_ok_tiles[OF ok]
  from ok have e: "0 \<le> emptyIndex s" "emptyIndex s < sz * sz"
    and ev: "tiles s ! nat (emptyIndex s) = Num (sz * sz - 1)"
    and m: "mset (tiles s) = mset (map Num (initialTiles sz))"
    by (simp_all add: board_ok_def)
  have len: "length (tiles s) < 4294967295" using sz t(3) by auto
  have il: "index < int (length (tiles s))" "emptyIndex s < int (length (tiles s))"
    using idx e t(3) by auto
  have nl: "nat index < length (tiles s)" "nat (emptyIndex s) < length (tiles s)"
    using il idx(1) e(1) by auto
  from True have a: "isStarted s" "\<not> isSolved s" "isAdjacent sz index (emptyIndex s)" by auto
  note mv = handleTileClick_move[OF a t(4) len idx(1) il(1) e(1) il(2)]
  let ?T = "(tiles s)[nat index := tiles s ! nat (emptyIndex s),
                           nat (emptyIndex s) := tiles s ! nat index]"
  have ms: "mset ?T = mset (tiles s)"
    using mset_swap[OF nl(2) nl(1)] .
  have at: "?T ! nat index = Num (sz * sz - 1)"
    using nl ev by (cases "nat (emptyIndex s) = nat index") simp_all
  show ?thesis
    unfolding mv board_ok_def using ms m at idx by simp
qed

lemma step_board_ok:
  "sz \<in> {3, 4, 5} \<Longrightarrow> board_ok sz s \<Longrightarrow> in_range sz e \<Longrightarrow> board_ok sz (step sz s e)"
  by (cases e) (simp_all add: handleTileClick_board_ok, simp add: tick_def tick_callback_def board_ok_def)

lemma run_board_ok:
  "sz \<in> {3, 4, 5} \<Longrightarrow> board_ok sz s \<Longrightarrow> \<forall>e\<in>set evs. in_range sz e \<Longrightarrow> board_ok sz (run sz s evs)"
proof (induction evs arbitrary: s)
  case Nil
  then show ?case by (simp add: run_Nil)
next
  case (Cons e evs)
  from Cons.prems have "board_ok sz (step sz s e)" by (simp add: step_board_ok)
  with Cons show ?case by (simp add: run_Cons)
qed

lemma initPuzzle_board_ok:
  assumes "sz \<in> {3, 4, 5}" and "\<forall>k. 0 \<le> rnd k \<and> rnd k < 1"
    and "initPuzzle rnd k sz s = Some (s0, k')"
  shows "board_ok sz s0"
proof -
  from assms(3) obtain board where
    gen: "generateBoard rnd k sz = Some (board, k')" and
    s0: "s0 = \<lparr>tiles = map Num board, emptyIndex = indexOf board (sz * sz - 1),
                moves = 0, seconds = 0, isStarted = True, isSolved = False, timerLive = True\<rparr>"
    by (auto simp: initPuzzle_def split: option.splits)
  have nz: "sz \<noteq> 0" using assms(1) by auto
  from generateBoard_accepts[OF gen] assms(2) nz have
    m: "mset board = mset (initialTiles sz)" by auto
  note p = mset_initialTiles_props[OF m]
  have "0 < sz * sz" using assms(1) by auto
  then have mem: "sz * sz - 1 \<in> set board" using p(2) by simp
  from indexOf_bounds[OF mem] p(3) have il: "nat (indexOf board (sz * sz - 1)) < length board"
    by linarith
  from m have "mset (map Num board) = mset (map Num (initialTiles sz))"
    by (metis mset_map)
  with indexOf_bounds[OF mem] indexOf_nth[OF mem] p(3) il s0 show ?thesis
    by (simp add: board_ok_def)
qed

text \<open>
  C4. In every state a session of size \<open>N\<close> (3, 4 or 5) reaches from \<open>initPuzzle\<close> through
  clicks on cells of the grid and timer ticks, in any number and order, the board is a
  permutation of \<open>0, \<dots>, N * N - 1\<close> and \<open>emptyIndex\<close> is the index at which the board holds
  \<open>N * N - 1\<close>.
\<close>

theorem run_board_invariant:
  assumes "sz \<in> {3, 4, 5}" and "\<forall>k. 0 \<le> rnd k \<and> rnd k < 1"
    and "initPuzzle rnd k sz s = Some (s0, k')"
    and "\<forall>e\<in>set evs. in_range sz e"
  shows "distinct (tiles (run sz s0 evs))
       \<and> set (tiles (run sz s0 evs)) = Num ` {0..sz * sz - 1}
       \<and> length (tiles (run sz s0 evs)) = nat (sz * sz)
       \<and> emptyIndex (run sz s0 evs) = indexOf (tiles (run sz s0 evs)) (Num (sz * sz - 1))
       \<and> tiles (run sz s0 evs) ! nat (emptyIndex (run sz s0 evs)) = Num (sz * sz - 1)"
proof -
  let ?s = "run sz s0 evs"
  have ok: "board_ok sz ?s"
    using run_board_ok[OF assms(1) initPuzzle_board_ok[OF assms(1,2,3)] assms(4)] .
  note t = board_ok_tiles[OF ok]
  from ok have e: "0 \<le> emptyIndex ?s" "emptyIndex ?s < sz * sz"
    and ev: "tiles ?s ! nat (emptyIndex ?s) = Num (sz * sz - 1)"
    by (simp_all add: board_ok_def)
  have "nat (emptyIndex ?s) < length (tiles ?s)" using e t(3) by linarith
  from indexOf_unique[OF t(1) this ev] e(1)
  have "emptyIndex ?s = indexOf (tiles ?s) (Num (sz * sz - 1))" by simp
  with t ev show ?thesis by simp
qed

lemma run_example:
  "run 3 session_example [Tick, Move 0, Move 4, Tick, Move 3] =
     \<lparr>tiles = map Num [0, 1, 2, 8, 3, 5, 6, 4, 7], emptyIndex = 3, moves = 2, seconds = 2,
      isStarted = True, isSolved = False, timerLive = True\<rparr>"
  by (simp add: run_def tick_def tick_callback_def handleTileClick_def session_example_def isAdjacent_def
      js_rem_def Let_def spread_def js_get_def js_set_def)

theorem run_board_invariant_witness:
  "(3::int) \<in> {3, 4, 5} \<and> initPuzzle rnd_example 0 3 initialApp = Some (session_example, 8)
   \<and> in_range 3 Tick \<and> in_range 3 (Move 0) \<and> in_range 3 (Move 4) \<and> in_range 3 (Move 3)
   \<and> tiles (run 3 session_example [Tick, Move 0, Move 4, Tick, Move 3])
        = map Num [0, 1, 2, 8, 3, 5, 6, 4, 7]
   \<and> distinct (map Num [0, 1, 2, 8, 3, 5, 6, 4, 7])
   \<and> set (map Num [0, 1, 2, 8, 3, 5, 6, 4, 7]) = Num ` {0..3 * 3 - 1}
   \<and> emptyIndex (run 3 session_example [Tick, Move 0, Move 4, Tick, Move 3]) = 3
   \<and> indexOf (map Num [0, 1, 2, 8, 3, 5, 6, 4, 7]) (Num (3 * 3 - 1)) = 3"
proof -
  have sz: "(3::int) \<in> {3, 4, 5}" by simp
  have r: "\<forall>e\<in>set [Tick, Move 0, Move 4, Tick, Move 3]. in_range 3 e" by simp
  note ex = initPuzzle_example[of initialApp]
  from run_board_invariant[OF sz rnd_example_valid ex r] ex
  show ?thesis by (simp add: run_example)
qed


subsection \<open>The timer\<close>

lemma handleTileClick_timer_ok: "timer_ok s \<Longrightarrow> timer_ok (handleTileClick sz index s)"
  by (simp add: handleTileClick_def timer_ok_def Let_def)

lemma tick_timer_ok: "timer_ok s \<Longrightarrow> timer_ok (tick s)"
  by (simp add: tick_def tick_callback_def timer_ok_def)

lemma step_timer_ok: "timer_ok s \<Longrightarrow> timer_ok (step sz s e)"
  by (cases e) (simp_all add: handleTileClick_timer_ok tick_timer_ok)

lemma run_timer_ok: "timer_ok s \<Longrightarrow> timer_ok (run sz s evs)"
proof (induction evs arbitrary: s)
  case Nil
  then show ?case by (simp add: run_Nil)
next
  case (Cons e evs)
  from Cons.IH[OF step_timer_ok[OF Cons.prems]] show ?case by (simp add: run_Cons)
qed

lemma initPuzzle_timer_ok: "initPuzzle rnd k sz s = Some (s0, k') \<Longrightarrow> timer_ok s0"
  by (auto simp add: initPuzzle_def timer_ok_def split: option.splits)

lemma run_ticks_cancelled: "\<not> timerLive s \<Longrightarrow> run sz s (replicate n Tick) = s"
  by (induction n) (simp_all add: run_Nil run_Cons tick_def tick_callback_def)

lemma run_solved_frozen: "isSolved s \<Longrightarrow> \<not> timerLive s \<Longrightarrow> run sz s evs = s"
proof (induction evs)
  case Nil
  then show ?case by (simp add: run_Nil)
next
  case (Cons e evs)
  then have "step sz s e = s"
    by (cases e) (simp_all add: handleTileClick_def tick_def)
  with Cons show ?case by (simp add: run_Cons)
qed

text \<open>
  C6. Once a session started by \<open>initPuzzle\<close> is solved, the interval is cancelled: a tick
  changes nothing, and after any number of further ticks the state, and with it the elapsed
  seconds, is what it was at the moment of solution. The same holds after any further
  events, clicks included.
\<close>

theorem tick_after_solved:
  assumes "initPuzzle rnd k sz s = Some (s0, k')" and "isSolved (run sz s0 evs)"
  shows "tick (run sz s0 evs) = run sz s0 evs
       \<and> run sz s0 (evs @ replicate n Tick) = run sz s0 evs
       \<and> seconds (run sz s0 (evs @ replicate n Tick)) = seconds (run sz s0 evs)
       \<and> run sz s0 (evs @ evs') = run sz s0 evs"
proof -
  from run_timer_ok[OF initPuzzle_timer_ok[OF assms(1)], of sz evs] assms(2)
  have off: "\<not> timerLive (run sz s0 evs)" by (simp add: timer_ok_def)
  then have "tick (run sz s0 evs) = run sz s0 evs" by (simp add: tick_def)
  moreover from off have "run sz s0 (evs @ replicate n Tick) = run sz s0 evs"
    by (simp add: run_append run_ticks_cancelled)
  moreover from off assms(2) have "run sz s0 (evs @ evs') = run sz s0 evs"
    by (simp add: run_append run_solved_frozen)
  ultimately show ?thesis by simp
qed

lemma run_solved_example: "run 3 session_example [Tick, Tick, Move 8] = solved_example\<lparr>seconds := 2\<rparr>"
  by (simp add: run_def tick_def tick_callback_def handleTileClick_def session_example_def solved_example_def
      isAdjacent_def js_rem_def Let_def spread_def js_get_def js_set_def)

theorem tick_after_solved_witness:
  "initPuzzle rnd_example 0 3 initialApp = Some (session_example, 8)
   \<and> isSolved (run 3 session_example [Tick, Tick, Move 8])
   \<and> seconds (run 3 session_example [Tick, Tick, Move 8]) = 2
   \<and> tick (run 3 session_example [Tick, Tick, Move 8]) = run 3 session_example [Tick, Tick, Move 8]
   \<and> seconds (run 3 session_example ([Tick, Tick, Move 8] @ replicate 5 Tick)) = 2"
proof -
  note ex = initPuzzle_example[of initialApp]
  have sol: "isSolved (run 3 session_example [Tick, Tick, Move 8])"
    by (simp add: run_solved_example solved_example_def)
  have sec: "seconds (run 3 session_example [Tick, Tick, Move 8]) = 2"
    by (simp add: run_solved_example)
  from tick_after_solved[OF ex sol, of 5] ex sol sec show ?thesis by simp
qed

text \<open>
  C10. A tick in an active session (started by \<open>initPuzzle\<close>, not solved) adds \<open>1\<close> to
  \<open>seconds\<close> and changes nothing else: the board, \<open>emptyIndex\<close>, \<open>moves\<close> and the flags
  \<open>isStarted\<close> and \<open>isSolved\<close> are as before.
\<close>

theorem tick_active:
  assumes "initPuzzle rnd k sz s = Some (s0, k')"
    and "isStarted (run sz s0 evs)" and "\<not> isSolved (run sz s0 evs)"
  shows "tick (run sz s0 evs) = (run sz s0 evs)\<lparr>seconds := seconds (run sz s0 evs) + 1\<rparr>
       \<and> tiles (tick (run sz s0 evs)) = tiles (run sz s0 evs)
       \<and> emptyIndex (tick (run sz s0 evs)) = emptyIndex (run sz s0 evs)
       \<and> moves (tick (run sz s0 evs)) = moves (run sz s0 evs)
       \<and> isStarted (tick (run sz s0 evs)) = isStarted (run sz s0 evs)
       \<and> isSolved (tick (run sz s0 evs)) = isSolved (run sz s0 evs)
       \<and> timerLive (tick (run sz s0 evs)) = timerLive (run sz s0 evs)"
proof -
  from run_timer_ok[OF initPuzzle_timer_ok[OF assms(1)], of sz evs] assms(3)
  have "timerLive (run sz s0 evs)" by (simp add: timer_ok_def)
  then show ?thesis by (simp add: tick_def tick_callback_def)
qed

lemma run_active_example:
  "run 3 session_example [Move 4, Tick] =
     \<lparr>tiles = map Num [0, 1, 2, 3, 8, 5, 6, 4, 7], emptyIndex = 4, moves = 1, seconds = 1,
      isStarted = True, isSolved = False, timerLive = True\<rparr>"
  by (simp add: run_def tick_def tick_callback_def handleTileClick_def session_example_def isAdjacent_def
      js_rem_def Let_def spread_def js_get_def js_set_def)

theorem tick_active_witness:
  "initPuzzle rnd_example 0 3 initialApp = Some (session_example, 8)
   \<and> isStarted (run 3 session_example [Move 4, Tick])
   \<and> \<not> isSolved (run 3 session_example [Move 4, Tick])
   \<and> tick (run 3 session_example [Move 4, Tick]) =
       \<lparr>tiles = map Num [0, 1, 2, 3, 8, 5, 6, 4, 7], emptyIndex = 4, moves = 1, seconds = 2,
        isStarted = True, isSolved = False, timerLive = True\<rparr>"
proof -
  note ex = initPuzzle_example[of initialApp]
  have a: "isStarted (run 3 session_example [Move 4, Tick])"
    "\<not> isSolved (run 3 session_example [Move 4, Tick])"
    by (simp_all add: run_active_example)
  from tick_active[OF ex a] ex a show ?thesis by (simp add: run_active_example)
qed

end
